theory Spec2Isabelle
  imports Main
begin

section \<open>Strings: the functions of Go's \<open>strings\<close> package that the router calls\<close>

text \<open>
  A Go string is a sequence of bytes; it is modelled as a \<^typ>\<open>string\<close>. The separator and
  the cut set the router passes are the single byte \<open>/\<close>, so \<open>Trim\<close> and \<open>Split\<close> are
  written for one character.
\<close>

definition HasPrefix :: "string \<Rightarrow> string \<Rightarrow> bool" where
  "HasPrefix s p = (length p \<le> length s \<and> take (length p) s = p)"

definition HasSuffix :: "string \<Rightarrow> string \<Rightarrow> bool" where
  "HasSuffix s p = (length p \<le> length s \<and> drop (length s - length p) s = p)"

definition TrimPrefix :: "string \<Rightarrow> string \<Rightarrow> string" where
  "TrimPrefix s p = (if HasPrefix s p then drop (length p) s else s)"

definition Trim :: "string \<Rightarrow> char \<Rightarrow> string" where
  "Trim s c = rev (dropWhile (\<lambda>x. x = c) (rev (dropWhile (\<lambda>x. x = c) s)))"

text \<open>
  \<open>strings.Split(s, sep)\<close> with a one-byte separator: one more piece than there are
  separators, so the empty string splits into one empty piece.
\<close>

fun Split :: "string \<Rightarrow> char \<Rightarrow> string list" where
  "Split [] c = [[]]"
| "Split (x # xs) c =
     (if x = c then [] # Split xs c
      else (case Split xs c of
              [] \<Rightarrow> [[x]]
            | y # ys \<Rightarrow> (x # y) # ys))"

text \<open>
  \<open>strings.ToLower\<close> on the bytes \<open>A\<close> to \<open>Z\<close>; every other byte is kept. (Go also lowers
  letters outside ASCII; an HTTP method is a token of ASCII characters.)
\<close>

definition lower_byte :: "char \<Rightarrow> char" where
  "lower_byte c =
     (let n = (of_char c :: nat)
      in if 65 \<le> n \<and> n \<le> 90 then char_of (n + 32) else c)"

definition ToLower :: "string \<Rightarrow> string" where
  "ToLower s = map lower_byte s"

section \<open>Contexts, requests, handlers\<close>

text \<open>
  A \<open>context.Context\<close> is a chain of key-value pairs, the newest first;
  \<open>context.WithValue\<close> puts one pair in front and \<open>Value\<close> returns the value of the first
  pair with the key, or nil. Only keys of the package's own type \<open>directContextKey\<close> (a
  string) are looked up by the router, so the chain holds those. A value is an
  \<open>interface{}\<close>: a string or something else. Contexts are never nil: \<open>req.Context()\<close>
  returns the background context when none was set.
\<close>

datatype any = Str string | Other

type_synonym Context = "(string \<times> any) list"

definition WithValue :: "Context \<Rightarrow> string \<Rightarrow> any \<Rightarrow> Context" where
  "WithValue ctx key val = (key, val) # ctx"

definition Value :: "Context \<Rightarrow> string \<Rightarrow> any option" where
  "Value ctx key = map_of ctx key"

text \<open>The request, as far as the router reads it: \<open>Method\<close>, \<open>URL.Path\<close> and the context.\<close>

record request =
  req_method :: string
  req_path :: string
  req_ctx :: Context

definition WithContext :: "request \<Rightarrow> Context \<Rightarrow> request" where
  "WithContext req ctx = req\<lparr>req_ctx := ctx\<rparr>"

text \<open>
  An \<open>http.Handler\<close> is opaque code that serves a request and changes the world \<open>'w\<close>
  (the response writer and whatever else the handler's closure reaches). A middleware
  turns a handler into a handler.
\<close>

type_synonym 'w Handler = "request \<Rightarrow> 'w \<Rightarrow> 'w"

type_synonym 'w Middleware = "'w Handler \<Rightarrow> 'w Handler"

text \<open>The route; its field \<open>method\<close> is \<open>rt_method\<close> here.\<close>

record 'w route =
  rt_method :: string
  segs :: "string list"
  handler :: "'w Handler"
  prefix :: bool

record 'w Router =
  routes :: "'w route list"
  mw :: "'w Middleware list"
  NotFound :: "'w Handler"

section \<open>The router\<close>

text \<open>\<open>NewRouter\<close>; the default fallback \<open>http.NotFoundHandler()\<close> is a parameter.\<close>

definition NewRouter :: "'w Handler \<Rightarrow> 'w Middleware list \<Rightarrow> 'w Router" where
  "NewRouter notFoundHandler ms = \<lparr>routes = [], mw = ms, NotFound = notFoundHandler\<rparr>"

definition pathSegments :: "string \<Rightarrow> string list" where
  "pathSegments pattern = Split (Trim pattern CHR ''/'') CHR ''/''"

text \<open>
  \<open>adapt\<close>: the loop \<open>for i := len(mw) - 1; i >= 0; i-- { h = mw[i](h) }\<close>. The last
  argument of \<open>adapt_loop\<close> is \<open>i + 1\<close>.
\<close>

fun adapt_loop :: "'w Handler \<Rightarrow> 'w Middleware list \<Rightarrow> nat \<Rightarrow> 'w Handler" where
  "adapt_loop h ms 0 = h"
| "adapt_loop h ms (Suc i) = adapt_loop ((ms ! i) h) ms i"

definition adapt :: "'w Handler \<Rightarrow> 'w Middleware list \<Rightarrow> 'w Handler" where
  "adapt h ms = adapt_loop h ms (length ms)"

definition newRoute :: "string \<Rightarrow> string \<Rightarrow> 'w Handler \<Rightarrow> 'w route" where
  "newRoute m pattern h =
     \<lparr>rt_method = ToLower m,
      segs = pathSegments pattern,
      handler = h,
      prefix = (HasSuffix pattern ''/'' \<or> HasSuffix pattern ''...'')\<rparr>"

definition Handle :: "'w Router \<Rightarrow> string \<Rightarrow> string \<Rightarrow> 'w Handler \<Rightarrow> 'w Middleware list \<Rightarrow> 'w Router" where
  "Handle r m pattern h ms =
     (let h1 = adapt h ms;
          h2 = adapt h1 (mw r)
      in r\<lparr>routes := routes r @ [newRoute m pattern h2]\<rparr>)"

text \<open>
  Two tests of the walk of \<open>route.match\<close>: \<open>isParam\<close>, the pattern segment starts with
  a colon; and the test of a literal segment that ends the walk with success, the
  segment ends in three dots and the request's segment starts with what stands before
  them (\<open>seg[:len(seg)-3]\<close>).
\<close>

definition isParam :: "string \<Rightarrow> bool" where
  "isParam seg = HasPrefix seg '':''"

definition dots_hit :: "string \<Rightarrow> string \<Rightarrow> bool" where
  "dots_hit seg s = (HasSuffix seg ''...'' \<and> HasPrefix s (take (length seg - 3) seg))"

text \<open>
  The walk itself: \<open>for i, seg := range r.segs\<close>, with the pattern segments still to
  visit, the request's segments \<open>ss\<close> and the index \<open>i\<close>. \<open>None\<close> is the result
  \<open>(nil, false)\<close>, \<open>Some ctx\<close> is \<open>(ctx, true)\<close>.
\<close>

fun match_loop :: "Context \<Rightarrow> string list \<Rightarrow> string list \<Rightarrow> nat \<Rightarrow> Context option" where
  "match_loop ctx [] ss i = Some ctx"
| "match_loop ctx (seg # rest) ss i =
     (if int i > int (length ss) - 1 then None
      else if isParam seg then
        match_loop (WithValue ctx (TrimPrefix seg '':'') (Str (ss ! i))) rest ss (i + 1)
      else if dots_hit seg (ss ! i) then Some ctx
      else if seg \<noteq> ss ! i then None
      else match_loop ctx rest ss (i + 1))"

text \<open>\<open>route.match\<close>; its parameter \<open>router\<close> is never read and is left out.\<close>

definition match :: "'w route \<Rightarrow> Context \<Rightarrow> string \<Rightarrow> Context option" where
  "match r ctx path =
     (let ss = pathSegments path
      in if length ss > length (segs r) \<and> \<not> prefix r then None
         else match_loop ctx (segs r) ss 0)"

text \<open>The test of \<open>ServeHTTP\<close> that skips a route: its method is neither the request's nor \<open>*\<close>.\<close>

definition skipped :: "'w route \<Rightarrow> string \<Rightarrow> bool" where
  "skipped rt m = (rt_method rt \<noteq> m \<and> rt_method rt \<noteq> ''*'')"

fun serve_loop :: "'w route list \<Rightarrow> 'w Handler \<Rightarrow> string \<Rightarrow> 'w Handler" where
  "serve_loop [] nf m req w = nf req w"
| "serve_loop (rt # rts) nf m req w =
     (if skipped rt m then serve_loop rts nf m req w
      else (case match rt (req_ctx req) (req_path req) of
              Some ctx \<Rightarrow> handler rt (WithContext req ctx) w
            | None \<Rightarrow> serve_loop rts nf m req w))"

definition ServeHTTP :: "'w Router \<Rightarrow> 'w Handler" where
  "ServeHTTP r req w = serve_loop (routes r) (NotFound r) (ToLower (req_method req)) req w"

text \<open>\<open>Param\<close>: the type assertion to \<open>string\<close> fails on nil and on any other value.\<close>

definition Param :: "Context \<Rightarrow> string \<Rightarrow> string" where
  "Param ctx param =
     (case Value ctx param of
        Some (Str vStr) \<Rightarrow> vStr
      | _ \<Rightarrow> [])"

section \<open>The middleware of the package's tests\<close>

text \<open>
  \<open>notify\<close> of \<open>direct_test.go\<close>: it logs \<open>prefix: before\<close>, calls the next handler, and
  logs \<open>prefix: after\<close> when that returns. The logger it shares with the test is the
  world.
\<close>

record testLogger =
  history :: "string list"

definition log :: "testLogger \<Rightarrow> string \<Rightarrow> testLogger" where
  "log l s = l\<lparr>history := history l @ [s]\<rparr>"

definition notify :: "string \<Rightarrow> testLogger Middleware" where
  "notify pfx h = (\<lambda>r l. log (h r (log l (pfx @ '': before''))) (pfx @ '': after''))"

section \<open>Auxiliary notions for the statements\<close>

text \<open>
  The scan of \<open>ServeHTTP\<close> passes over a route when it skips it or its match fails.
\<close>

definition declines :: "'w route \<Rightarrow> string \<Rightarrow> request \<Rightarrow> bool" where
  "declines rt m req = (skipped rt m \<or> match rt (req_ctx req) (req_path req) = None)"

text \<open>
  A handler that only records that it was called, as the handlers of the tests do, and
  a route list whose handlers are replaced by such recorders, the \<open>k\<close>-th route's
  writing \<open>k\<close>.
\<close>

definition mark :: "nat \<Rightarrow> nat list Handler" where
  "mark k req calls = calls @ [k]"

definition marked :: "'w route list \<Rightarrow> nat list route list" where
  "marked rts =
     map (\<lambda>(k, rt). \<lparr>rt_method = rt_method rt, segs = segs rt, handler = mark k, prefix = prefix rt\<rparr>)
       (enumerate 0 rts)"

text \<open>
  What one turn of the walk does with a pattern segment and the request's segment at
  its index: it does not fail on them (\<open>accepts\<close>: a parameter, a dotted literal that
  hits, or an equal literal), and it goes on to the next index (\<open>steps_over\<close>: a
  parameter, or an equal literal that does not end the walk).
\<close>

definition accepts :: "string \<Rightarrow> string \<Rightarrow> bool" where
  "accepts seg s = (isParam seg \<or> dots_hit seg s \<or> seg = s)"

definition steps_over :: "string \<Rightarrow> string \<Rightarrow> bool" where
  "steps_over seg s = (isParam seg \<or> (\<not> dots_hit seg s \<and> seg = s))"

section \<open>Middleware composition\<close>

lemma adapt_loop_take:
  "n \<le> length ms \<Longrightarrow> adapt_loop h ms n = foldr (\<lambda>m k. m k) (take n ms) h"
proof (induction n arbitrary: h)
  case 0
  show ?case by simp
next
  case (Suc n)
  then have "n < length ms" by simp
  then have "take (Suc n) ms = take n ms @ [ms ! n]"
    by (rule take_Suc_conv_app_nth)
  with Suc show ?case by simp
qed

lemma adapt_foldr: "adapt h ms = foldr (\<lambda>m k. m k) ms h"
  by (simp add: adapt_def adapt_loop_take)

lemma notify_chain:
  "foldr (\<lambda>m k. m k) (map notify ps) h r l =
     foldl log (h r (foldl log l (map (\<lambda>p. p @ '': before'') ps)))
       (map (\<lambda>p. p @ '': after'') (rev ps))"
  by (induction ps arbitrary: l) (simp_all add: notify_def)

text \<open>
  C4. The handler that \<open>Handle\<close> stores in the route it appends is
  \<open>r1 (r2 (... rk (h1 (h2 (... hj H)))))\<close> for the router's middleware \<open>[r1..rk]\<close> and the
  handler's own \<open>[h1..hj]\<close>: \<open>foldr\<close> applies the last middleware of the joined list
  first, so the first is outermost. When the middleware are \<open>notify\<close> of the prefixes
  \<open>rps\<close> and \<open>hps\<close>, a call of the stored handler logs the \<open>before\<close> lines of the router's
  middleware and then of the handler's in list order, runs \<open>H\<close>, and logs the \<open>after\<close>
  lines in the reverse order.
\<close>

theorem Handle_composes:
  "handler (last (routes (Handle r m pattern H hs))) = foldr (\<lambda>m k. m k) (mw r @ hs) H
   \<and> handler (last (routes (Handle (r\<lparr>mw := map notify rps\<rparr>) m pattern H (map notify hps)))) req l =
       foldl log (H req (foldl log l (map (\<lambda>p. p @ '': before'') (rps @ hps))))
         (map (\<lambda>p. p @ '': after'') (rev (rps @ hps)))"
proof
  show "handler (last (routes (Handle r m pattern H hs))) = foldr (\<lambda>m k. m k) (mw r @ hs) H"
    by (simp add: Handle_def newRoute_def adapt_foldr)
  have "handler (last (routes (Handle (r\<lparr>mw := map notify rps\<rparr>) m pattern H (map notify hps)))) =
        foldr (\<lambda>m k. m k) (map notify (rps @ hps)) H"
    by (simp add: Handle_def newRoute_def adapt_foldr)
  then show "handler (last (routes (Handle (r\<lparr>mw := map notify rps\<rparr>) m pattern H (map notify hps)))) req l =
       foldl log (H req (foldl log l (map (\<lambda>p. p @ '': before'') (rps @ hps))))
         (map (\<lambda>p. p @ '': after'') (rev (rps @ hps)))"
    by (simp only: notify_chain)
qed

text \<open>
  The third case of \<open>TestMiddlewareExecutedInOrderAsProvided\<close>: two router-wide and two
  handler-specific \<open>notify\<close> around a handler that does nothing.
\<close>

theorem Handle_composes_witness:
  "history (handler (last (routes (Handle
       ((NewRouter (\<lambda>q l. l) [])\<lparr>mw := map notify [''routerMw1'', ''routerMw2'']\<rparr>)
       ''GET'' ''/route'' (\<lambda>q l. l) (map notify [''handlerMw1'', ''handlerMw2'']))))
     \<lparr>req_method = ''GET'', req_path = ''/route'', req_ctx = []\<rparr> \<lparr>history = []\<rparr>) =
   [''routerMw1: before'', ''routerMw2: before'', ''handlerMw1: before'', ''handlerMw2: before'',
    ''handlerMw2: after'', ''handlerMw1: after'', ''routerMw2: after'', ''routerMw1: after'']"
  using Handle_composes [of "NewRouter (\<lambda>q l. l) []" "''GET''" "''/route''" "\<lambda>q l. l" "[]"
      "[''routerMw1'', ''routerMw2'']" "[''handlerMw1'', ''handlerMw2'']"
      "\<lparr>req_method = ''GET'', req_path = ''/route'', req_ctx = []\<rparr>" "\<lparr>history = []\<rparr>"]
  by (simp add: log_def)

section \<open>The walk of the matcher\<close>

lemma isParam_Cons: "isParam seg \<longleftrightarrow> (\<exists>n. seg = CHR '':'' # n)"
  by (cases seg) (auto simp: isParam_def HasPrefix_def)

lemma TrimPrefix_colon: "TrimPrefix (CHR '':'' # n) '':'' = n"
  by (simp add: TrimPrefix_def HasPrefix_def)

lemma TrimPrefix_name: "isParam seg \<Longrightarrow> TrimPrefix seg '':'' = name \<longleftrightarrow> seg = CHR '':'' # name"
  by (auto simp: isParam_Cons TrimPrefix_colon)

lemma dots_hit_self: "HasSuffix seg ''...'' \<Longrightarrow> dots_hit seg seg"
  by (simp add: dots_hit_def HasSuffix_def HasPrefix_def)

lemma match_loop_keeps:
  "match_loop ctx ps ss k = Some c \<Longrightarrow> CHR '':'' # name \<notin> set ps \<Longrightarrow> Value c name = Value ctx name"
proof (induction ps arbitrary: ctx k)
  case Nil
  then show ?case by simp
next
  case (Cons p ps)
  show ?case
  proof (cases "isParam p")
    case True
    with Cons.prems have ne: "TrimPrefix p '':'' \<noteq> name"
      by (auto simp: TrimPrefix_name)
    from Cons.prems True have
      "match_loop (WithValue ctx (TrimPrefix p '':'') (Str (ss ! k))) ps ss (k + 1) = Some c"
      by (simp split: if_splits)
    then have "Value c name = Value (WithValue ctx (TrimPrefix p '':'') (Str (ss ! k))) name"
      using Cons.prems(2) by (intro Cons.IH) simp_all
    with ne show ?thesis by (simp add: Value_def WithValue_def)
  next
    case False
    with Cons.prems show ?thesis
      by (auto split: if_splits dest: Cons.IH)
  qed
qed

lemma match_loop_captures:
  "match_loop ctx ps ss k = Some c \<Longrightarrow>
   \<exists>caps. c = caps @ ctx \<and>
     set caps \<subseteq> {(TrimPrefix p '':'', Str s) |p s. p \<in> set ps \<and> isParam p \<and> s \<in> set ss}"
proof (induction ps arbitrary: ctx k)
  case Nil
  then show ?case by simp
next
  case (Cons p ps)
  from Cons.prems have k: "k < length ss" by (simp split: if_splits)
  show ?case
  proof (cases "isParam p")
    case True
    with Cons.prems k have
      "match_loop (WithValue ctx (TrimPrefix p '':'') (Str (ss ! k))) ps ss (k + 1) = Some c"
      by simp
    from Cons.IH [OF this] obtain caps where
      c: "c = caps @ WithValue ctx (TrimPrefix p '':'') (Str (ss ! k))"
      and sub: "set caps \<subseteq> {(TrimPrefix p '':'', Str s) |p s. p \<in> set ps \<and> isParam p \<and> s \<in> set ss}"
      by blast
    have "c = (caps @ [(TrimPrefix p '':'', Str (ss ! k))]) @ ctx"
      using c by (simp add: WithValue_def)
    moreover have "set (caps @ [(TrimPrefix p '':'', Str (ss ! k))]) \<subseteq>
       {(TrimPrefix q '':'', Str s) |q s. q \<in> set (p # ps) \<and> isParam q \<and> s \<in> set ss}"
    proof
      fix x assume "x \<in> set (caps @ [(TrimPrefix p '':'', Str (ss ! k))])"
      then consider "x \<in> set caps" | "x = (TrimPrefix p '':'', Str (ss ! k))" by auto
      then show "x \<in> {(TrimPrefix q '':'', Str s) |q s. q \<in> set (p # ps) \<and> isParam q \<and> s \<in> set ss}"
      proof cases
        case 1
        with sub obtain q s where "x = (TrimPrefix q '':'', Str s)" "q \<in> set ps" "isParam q" "s \<in> set ss"
          by blast
        then show ?thesis by auto
      next
        case 2
        with True k show ?thesis by auto
      qed
    qed
    ultimately show ?thesis by blast
  next
    case False
    show ?thesis
    proof (cases "dots_hit p (ss ! k)")
      case True
      with Cons.prems False k have "c = [] @ ctx" by simp
      then show ?thesis by (intro exI [of _ "[]"]) simp
    next
      case nohit: False
      with Cons.prems False k have "match_loop ctx ps ss (k + 1) = Some c"
        by (simp split: if_splits)
      from Cons.IH [OF this] obtain caps where c: "c = caps @ ctx"
        and sub: "set caps \<subseteq> {(TrimPrefix q '':'', Str s) |q s. q \<in> set ps \<and> isParam q \<and> s \<in> set ss}"
        by blast
      have "{(TrimPrefix q '':'', Str s) |q s. q \<in> set ps \<and> isParam q \<and> s \<in> set ss} \<subseteq>
            {(TrimPrefix q '':'', Str s) |q s. q \<in> set (p # ps) \<and> isParam q \<and> s \<in> set ss}"
        by auto
      with sub have "set caps \<subseteq>
            {(TrimPrefix q '':'', Str s) |q s. q \<in> set (p # ps) \<and> isParam q \<and> s \<in> set ss}"
        by (rule subset_trans)
      with c show ?thesis by blast
    qed
  qed
qed

lemma match_loop_reach:
  "\<forall>j<length pre. accepts (pre ! j) (ss ! (k + j)) \<Longrightarrow> k + length pre < length ss \<Longrightarrow>
   \<not> isParam seg \<Longrightarrow> dots_hit seg (ss ! (k + length pre)) \<Longrightarrow>
   match_loop ctx (pre @ seg # rest) ss k = match_loop ctx pre ss k \<and> match_loop ctx pre ss k \<noteq> None"
proof (induction pre arbitrary: ctx k)
  case Nil
  then show ?case by simp
next
  case (Cons p pre)
  have k: "k < length ss" using Cons.prems(2) by simp
  have p: "accepts p (ss ! k)" using Cons.prems(1) by fastforce
  have rest: "\<forall>j<length pre. accepts (pre ! j) (ss ! (Suc k + j))"
    using Cons.prems(1) by fastforce
  have len: "Suc k + length pre < length ss" using Cons.prems(2) by simp
  have hit: "dots_hit seg (ss ! (Suc k + length pre))" using Cons.prems(4) by simp
  note IH = Cons.IH [OF rest len Cons.prems(3) hit]
  show ?case
  proof (cases "isParam p")
    case True
    then show ?thesis using k IH by simp
  next
    case False
    then show ?thesis using k p IH by (auto simp: accepts_def)
  qed
qed

lemma match_loop_walk:
  "\<forall>j<length pre. steps_over (pre ! j) (ss ! (k + j)) \<Longrightarrow> k + length pre \<le> length ss \<Longrightarrow>
   \<exists>c. \<forall>qs. match_loop ctx (pre @ qs) ss k = match_loop c qs ss (k + length pre)"
proof (induction pre arbitrary: ctx k)
  case Nil
  show ?case by (intro exI [of _ ctx]) simp
next
  case (Cons p pre)
  have k: "k < length ss" using Cons.prems(2) by simp
  have p: "steps_over p (ss ! k)" using Cons.prems(1) by fastforce
  have rest: "\<forall>j<length pre. steps_over (pre ! j) (ss ! (Suc k + j))"
    using Cons.prems(1) by fastforce
  have len: "Suc k + length pre \<le> length ss" using Cons.prems(2) by simp
  note IH = Cons.IH [OF rest len]
  show ?case
  proof (cases "isParam p")
    case True
    from IH [of "WithValue ctx (TrimPrefix p '':'') (Str (ss ! k))"] obtain c where
      "\<forall>qs. match_loop (WithValue ctx (TrimPrefix p '':'') (Str (ss ! k))) (pre @ qs) ss (Suc k) =
            match_loop c qs ss (Suc k + length pre)" by blast
    then have "\<forall>qs. match_loop ctx ((p # pre) @ qs) ss k = match_loop c qs ss (k + length (p # pre))"
      using True k by simp
    then show ?thesis by blast
  next
    case False
    from IH [of ctx] obtain c where
      "\<forall>qs. match_loop ctx (pre @ qs) ss (Suc k) = match_loop c qs ss (Suc k + length pre)" by blast
    then have "\<forall>qs. match_loop ctx ((p # pre) @ qs) ss k = match_loop c qs ss (k + length (p # pre))"
      using False k p by (auto simp: steps_over_def)
    then show ?thesis by blast
  qed
qed

lemma match_loop_own_path:
  "match_loop ctx ps (before @ ps @ extra) (length before) \<noteq> None"
proof (induction ps arbitrary: ctx before)
  case Nil
  show ?case by simp
next
  case (Cons p ps)
  have nth: "(before @ (p # ps) @ extra) ! length before = p" by simp
  have eq: "before @ (p # ps) @ extra = (before @ [p]) @ ps @ extra" by simp
  have IH: "match_loop c ps (before @ (p # ps) @ extra) (length before + 1) \<noteq> None" for c
    using Cons.IH [of c "before @ [p]"] by (simp only: eq) simp
  have "match_loop ctx (p # ps) (before @ (p # ps) @ extra) (length before) =
        (if isParam p then
           match_loop (WithValue ctx (TrimPrefix p '':'') (Str p)) ps (before @ (p # ps) @ extra) (length before + 1)
         else if dots_hit p p then Some ctx
         else match_loop ctx ps (before @ (p # ps) @ extra) (length before + 1))"
    by (simp only: match_loop.simps nth) simp
  then show ?case using IH by simp
qed

lemma Trim_snoc: "Trim (s @ [c]) c = Trim s c"
proof (cases "\<forall>x\<in>set s. x = c")
  case True
  then have "dropWhile (\<lambda>x. x = c) s = []" and "dropWhile (\<lambda>x. x = c) (s @ [c]) = []"
    by simp_all
  then show ?thesis by (simp only: Trim_def)
next
  case False
  then have "dropWhile (\<lambda>x. x = c) (s @ [c]) = dropWhile (\<lambda>x. x = c) s @ [c]"
    by auto
  then show ?thesis by (simp add: Trim_def)
qed


lemma Split_not_Nil: "Split s c \<noteq> []"
  by (induction s) (auto split: list.splits)

lemma Split_append: "Split (a @ c # b) c = Split a c @ Split b c"
proof (induction a)
  case Nil
  show ?case by simp
next
  case (Cons x a)
  obtain y ys where "Split a c = y # ys"
    using Split_not_Nil [of a c] by (cases "Split a c") auto
  with Cons show ?case by simp
qed

lemma match_extended:
  assumes "prefix r" and "pathSegments path = segs r @ extra"
  shows "match r ctx path \<noteq> None"
  using assms match_loop_own_path [of ctx "segs r" "[]" extra]
  by (simp add: match_def)

lemma Trim_decompose:
  obtains l t where "s = l @ Trim s c @ t" and "\<forall>x\<in>set l. x = c" and "\<forall>x\<in>set t. x = c"
proof -
  let ?P = "\<lambda>x. x = c"
  let ?d = "dropWhile ?P s"
  have "?d = rev (takeWhile ?P (rev ?d) @ dropWhile ?P (rev ?d))" by simp
  also have "\<dots> = rev (dropWhile ?P (rev ?d)) @ rev (takeWhile ?P (rev ?d))" by (rule rev_append)
  also have "\<dots> = Trim s c @ rev (takeWhile ?P (rev ?d))" by (simp only: Trim_def)
  finally have "takeWhile ?P s @ ?d = takeWhile ?P s @ Trim s c @ rev (takeWhile ?P (rev ?d))"
    by (rule arg_cong)
  then have 1: "s = takeWhile ?P s @ Trim s c @ rev (takeWhile ?P (rev ?d))"
    by (simp only: takeWhile_dropWhile_id)
  have 2: "\<forall>x\<in>set (takeWhile ?P s). x = c"
    by (auto dest: set_takeWhileD)
  have 3: "\<forall>x\<in>set (rev (takeWhile ?P (rev ?d))). x = c"
    by (auto dest: set_takeWhileD)
  from 1 2 3 show thesis by (rule that)
qed

lemma last_dropWhile: "dropWhile P xs \<noteq> [] \<Longrightarrow> last (dropWhile P xs) = last xs"
proof -
  assume ne: "dropWhile P xs \<noteq> []"
  have "last (takeWhile P xs @ dropWhile P xs) = last (dropWhile P xs)"
    using ne by (rule last_appendR)
  then show ?thesis by simp
qed

lemma Trim_edges:
  assumes ne: "Trim s c \<noteq> []"
  shows "hd (Trim s c) \<noteq> c" and "last (Trim s c) \<noteq> c"
proof -
  let ?P = "\<lambda>x. x = c"
  let ?d = "dropWhile ?P s"
  let ?D = "dropWhile ?P (rev ?d)"
  have T: "Trim s c = rev ?D" by (simp add: Trim_def)
  from ne have D: "?D \<noteq> []" by (simp add: Trim_def)
  then have "\<not> ?P (hd ?D)" by (rule hd_dropWhile)
  then show "last (Trim s c) \<noteq> c" using D by (simp add: T last_rev)
  have d: "?d \<noteq> []"
  proof
    assume "?d = []"
    then have "?D = []" by (simp only: rev.simps dropWhile.simps)
    with D show False by simp
  qed
  then have h: "\<not> ?P (hd ?d)" by (rule hd_dropWhile)
  have "last ?D = last (rev ?d)" using D by (rule last_dropWhile)
  also have "\<dots> = hd ?d" using d by (simp add: last_rev)
  finally have "hd (Trim s c) = hd ?d" using D by (simp add: T hd_rev)
  with h show "hd (Trim s c) \<noteq> c" by simp
qed

lemma Trim_sandwich:
  assumes l: "\<forall>x\<in>set l. x = c" and t: "t \<noteq> []" "hd t \<noteq> c" "last t \<noteq> c"
  shows "Trim (l @ t @ u) c = t @ rev (dropWhile (\<lambda>x. x = c) (rev u))"
proof -
  let ?P = "\<lambda>x. x = c"
  have "dropWhile ?P (l @ t @ u) = dropWhile ?P (t @ u)"
    by (rule dropWhile_append2) (use l in auto)
  also have "\<dots> = t @ u" using t by (cases t) auto
  finally have 1: "dropWhile ?P (l @ t @ u) = t @ u" .
  have "hd (rev t) \<noteq> c" using t by (simp add: hd_rev)
  then have rt: "dropWhile ?P (rev t) = rev t"
    using t(1) by (cases "rev t") auto
  have 2: "dropWhile ?P (rev u @ rev t) = dropWhile ?P (rev u) @ rev t"
  proof (cases "\<forall>x\<in>set (rev u). x = c")
    case True
    then have "dropWhile ?P (rev u) = []" by simp
    moreover have "dropWhile ?P (rev u @ rev t) = dropWhile ?P (rev t)"
      by (rule dropWhile_append2) (use True in auto)
    ultimately show ?thesis using rt by simp
  next
    case False
    then show ?thesis by auto
  qed
  show ?thesis by (simp add: Trim_def 1 2)
qed

lemma rev_dropWhile_rev_prefix:
  "u = rev (dropWhile P (rev u)) @ rev (takeWhile P (rev u))"
proof -
  have "u = rev (takeWhile P (rev u) @ dropWhile P (rev u))" by simp
  also have "\<dots> = rev (dropWhile P (rev u)) @ rev (takeWhile P (rev u))" by (rule rev_append)
  finally show ?thesis .
qed

lemma pathSegments_extend:
  assumes suf: "HasSuffix pattern ''/''" and ne: "Trim pattern CHR ''/'' \<noteq> []"
  shows "\<exists>extra. pathSegments (pattern @ rest) = pathSegments pattern @ extra"
proof -
  define t where "t = Trim pattern CHR ''/''"
  obtain l tr where dec0: "pattern = l @ Trim pattern CHR ''/'' @ tr"
    and l: "\<forall>x\<in>set l. x = CHR ''/''" and tr: "\<forall>x\<in>set tr. x = CHR ''/''"
    by (rule Trim_decompose)
  have dec: "pattern = l @ t @ tr" unfolding t_def by (fact dec0)
  have tne: "t \<noteq> []" using ne by (simp add: t_def)
  have edges: "hd t \<noteq> CHR ''/''" "last t \<noteq> CHR ''/''"
    unfolding t_def using Trim_edges [OF ne] by blast+
  from suf have len: "1 \<le> length pattern" and dr: "drop (length pattern - 1) pattern = ''/''"
    by (simp_all add: HasSuffix_def)
  have "last (drop (length pattern - 1) pattern) = last pattern"
    using len by (intro last_drop) simp
  with dr have lastp: "last pattern = CHR ''/''" by simp
  have trne: "tr \<noteq> []"
  proof
    assume "tr = []"
    with dec have "last pattern = last (l @ t)" by simp
    also have "\<dots> = last t" using tne by (rule last_appendR)
    finally show False using lastp edges by simp
  qed
  define u where "u = tr @ rest"
  define X where "X = rev (dropWhile (\<lambda>x. x = CHR ''/'') (rev u))"
  define R where "R = rev (takeWhile (\<lambda>x. x = CHR ''/'') (rev u))"
  have uXR: "u = X @ R" unfolding X_def R_def by (rule rev_dropWhile_rev_prefix)
  have "pattern @ rest = l @ t @ u" using dec by (simp add: u_def)
  then have "Trim (pattern @ rest) CHR ''/'' = Trim (l @ t @ u) CHR ''/''" by (rule arg_cong)
  also have "\<dots> = t @ X" unfolding X_def using l tne edges by (rule Trim_sandwich)
  finally have T: "Trim (pattern @ rest) CHR ''/'' = t @ X" .
  show ?thesis
  proof (cases "X = []")
    case True
    with T have "pathSegments (pattern @ rest) = pathSegments pattern @ []"
      by (simp add: pathSegments_def t_def)
    then show ?thesis by (rule exI)
  next
    case False
    then have "hd (X @ R) = hd X" by (rule hd_append2)
    then have "hd u = hd X" by (simp only: uXR)
    moreover have "hd u = CHR ''/''" using trne tr by (cases tr) (simp_all add: u_def)
    ultimately have "hd X = CHR ''/''" by simp
    with False obtain X' where X: "X = CHR ''/'' # X'" by (cases X) simp_all
    have "pathSegments (pattern @ rest) = Split (t @ CHR ''/'' # X') CHR ''/''"
      by (simp only: pathSegments_def T X)
    also have "\<dots> = Split t CHR ''/'' @ Split X' CHR ''/''" by (rule Split_append)
    finally have "pathSegments (pattern @ rest) = pathSegments pattern @ Split X' CHR ''/''"
      by (simp only: pathSegments_def t_def)
    then show ?thesis by (rule exI)
  qed
qed

section \<open>Dispatch\<close>

lemma serve_loop_declined:
  "list_all (\<lambda>rt. declines rt m req) pre \<Longrightarrow>
   serve_loop (pre @ rts) nf m req w = serve_loop rts nf m req w"
  by (induction pre) (auto simp: declines_def)

lemma serve_loop_hit:
  "\<not> skipped rt m \<Longrightarrow> match rt (req_ctx req) (req_path req) = Some c \<Longrightarrow>
   serve_loop (rt # rts) nf m req w = handler rt (WithContext req c) w"
  by simp

lemma serve_loop_nth:
  assumes "i < length rs"
    and "\<forall>j<i. declines (rs ! j) m req"
    and "\<not> skipped (rs ! i) m"
    and "match (rs ! i) (req_ctx req) (req_path req) = Some c"
  shows "serve_loop rs nf m req w = handler (rs ! i) (WithContext req c) w"
proof -
  have split: "rs = take i rs @ rs ! i # drop (Suc i) rs"
    using assms(1) by (rule id_take_nth_drop)
  have "list_all (\<lambda>rt. declines rt m req) (take i rs)"
    using assms(1,2) by (simp add: list_all_length)
  then have "serve_loop (take i rs @ rs ! i # drop (Suc i) rs) nf m req w =
             serve_loop (rs ! i # drop (Suc i) rs) nf m req w"
    by (rule serve_loop_declined)
  also have "\<dots> = handler (rs ! i) (WithContext req c) w"
    using assms(3,4) by (rule serve_loop_hit)
  finally show ?thesis using split by simp
qed

lemma serve_loop_none:
  assumes "\<forall>i<length rs. declines (rs ! i) m req"
  shows "serve_loop rs nf m req w = nf req w"
proof -
  have "list_all (\<lambda>rt. declines rt m req) rs"
    using assms by (simp add: list_all_length)
  then have "serve_loop (rs @ []) nf m req w = serve_loop [] nf m req w"
    by (rule serve_loop_declined)
  then show ?thesis by simp
qed

lemma serve_loop_cases:
  "(\<exists>i<length rs. \<exists>c. serve_loop rs nf m req w = handler (rs ! i) (WithContext req c) w)
   \<or> serve_loop rs nf m req w = nf req w"
proof (induction rs)
  case Nil
  show ?case by simp
next
  case (Cons rt rs)
  show ?case
  proof (cases "declines rt m req")
    case True
    then have eq: "serve_loop (rt # rs) nf m req w = serve_loop rs nf m req w"
      by (auto simp: declines_def)
    from Cons.IH show ?thesis
    proof
      assume "\<exists>i<length rs. \<exists>c. serve_loop rs nf m req w = handler (rs ! i) (WithContext req c) w"
      then obtain i c where "i < length rs"
        and "serve_loop rs nf m req w = handler (rs ! i) (WithContext req c) w" by blast
      then have "Suc i < length (rt # rs)"
        and "serve_loop (rt # rs) nf m req w = handler ((rt # rs) ! Suc i) (WithContext req c) w"
        using eq by simp_all
      then show ?thesis by blast
    next
      assume "serve_loop rs nf m req w = nf req w"
      then show ?thesis using eq by simp
    qed
  next
    case False
    then obtain c where "\<not> skipped rt m" and "match rt (req_ctx req) (req_path req) = Some c"
      by (auto simp: declines_def)
    then have "serve_loop (rt # rs) nf m req w = handler ((rt # rs) ! 0) (WithContext req c) w"
      by simp
    then show ?thesis by fastforce
  qed
qed

lemma marked_nth: "i < length rts \<Longrightarrow> handler (marked rts ! i) = mark i"
  by (simp add: marked_def nth_enumerate_eq)

lemma length_marked: "length (marked rts) = length rts"
  by (simp add: marked_def)

lemma serve_marked:
  "\<exists>k\<le>length rts. serve_loop (marked rts) (mark (length rts)) m req calls = calls @ [k]"
proof -
  from serve_loop_cases [of "marked rts" "mark (length rts)" m req calls]
  show ?thesis
  proof
    assume "\<exists>i<length (marked rts). \<exists>c. serve_loop (marked rts) (mark (length rts)) m req calls =
             handler (marked rts ! i) (WithContext req c) calls"
    then obtain i c where i: "i < length rts"
      and "serve_loop (marked rts) (mark (length rts)) m req calls =
             handler (marked rts ! i) (WithContext req c) calls"
      by (auto simp: length_marked)
    then have "serve_loop (marked rts) (mark (length rts)) m req calls = calls @ [i]"
      by (simp add: marked_nth mark_def)
    with i show ?thesis by (intro exI [of _ i]) simp
  next
    assume "serve_loop (marked rts) (mark (length rts)) m req calls = mark (length rts) req calls"
    then show ?thesis by (intro exI [of _ "length rts"]) (simp add: mark_def)
  qed
qed

text \<open>
  C1. \<open>ServeHTTP\<close> is one handler call. With \<open>m\<close> the lowered request method: if route
  \<open>i\<close> is not skipped and matches with context \<open>c\<close>, and every route registered before it
  is skipped or fails to match, the result is that of route \<open>i\<close>'s handler on the request
  carrying \<open>c\<close> (so of two matching routes the one registered first is dispatched); if
  every route is skipped or fails, it is that of the fallback on the request. When the
  handlers only record their call, exactly one call is recorded.
\<close>

theorem ServeHTTP_first_match:
  "(\<forall>i c. i < length (routes r)
        \<and> (\<forall>j<i. declines (routes r ! j) (ToLower (req_method req)) req)
        \<and> \<not> skipped (routes r ! i) (ToLower (req_method req))
        \<and> match (routes r ! i) (req_ctx req) (req_path req) = Some c
      \<longrightarrow> ServeHTTP r req w = handler (routes r ! i) (WithContext req c) w)
   \<and> ((\<forall>i<length (routes r). declines (routes r ! i) (ToLower (req_method req)) req)
      \<longrightarrow> ServeHTTP r req w = NotFound r req w)
   \<and> (\<exists>k\<le>length rts.
        ServeHTTP \<lparr>routes = marked rts, mw = ms, NotFound = mark (length rts)\<rparr> req calls = calls @ [k])"
  by (auto simp: ServeHTTP_def serve_loop_nth serve_loop_none serve_marked)


text \<open>The definitions a concrete request is evaluated with.\<close>

lemmas eval_defs = Handle_def NewRouter_def adapt_def newRoute_def match_def pathSegments_def Trim_def
  HasPrefix_def HasSuffix_def TrimPrefix_def isParam_def dots_hit_def WithValue_def skipped_def
  declines_def ToLower_def lower_byte_def WithContext_def mark_def

theorem ServeHTTP_first_match_witness:
  "ServeHTTP (Handle (Handle (NewRouter (mark 2) []) ''GET'' ''/one/:x'' (mark 0) []) ''get'' ''/one/two'' (mark 1) [])
      \<lparr>req_method = ''GET'', req_path = ''/one/two'', req_ctx = []\<rparr> [] = [0]
   \<and> ServeHTTP (Handle (Handle (NewRouter (mark 2) []) ''GET'' ''/one/:x'' (mark 0) []) ''get'' ''/one/two'' (mark 1) [])
      \<lparr>req_method = ''POST'', req_path = ''/one/two'', req_ctx = []\<rparr> [] = [2]"
proof
  let ?r = "Handle (Handle (NewRouter (mark 2) []) ''GET'' ''/one/:x'' (mark 0) []) ''get'' ''/one/two'' (mark 1) []"
  let ?req = "\<lparr>req_method = ''GET'', req_path = ''/one/two'', req_ctx = []\<rparr>"
  let ?req2 = "\<lparr>req_method = ''POST'', req_path = ''/one/two'', req_ctx = []\<rparr>"
  have low: "ToLower ''GET'' = ''get''" "ToLower ''get'' = ''get''" "ToLower ''POST'' = ''post''"
    by code_simp+
  have len: "length (routes ?r) = 2"
    by (simp add: Handle_def NewRouter_def)
  have m0: "match (routes ?r ! 0) (req_ctx ?req) (req_path ?req) = Some [(''x'', Str ''two'')]"
    by (simp add: eval_defs)
  have m1: "match (routes ?r ! 1) (req_ctx ?req) (req_path ?req) = Some []"
    by (simp add: eval_defs)
  have s0: "\<not> skipped (routes ?r ! 0) (ToLower (req_method ?req))"
    by (simp add: low skipped_def Handle_def NewRouter_def newRoute_def)
  have hyp: "0 < length (routes ?r)
        \<and> (\<forall>j<0. declines (routes ?r ! j) (ToLower (req_method ?req)) ?req)
        \<and> \<not> skipped (routes ?r ! 0) (ToLower (req_method ?req))
        \<and> match (routes ?r ! 0) (req_ctx ?req) (req_path ?req) = Some [(''x'', Str ''two'')]"
    using len m0 s0 by simp
  have "ServeHTTP ?r ?req [] = handler (routes ?r ! 0) (WithContext ?req [(''x'', Str ''two'')]) []"
    by (rule ServeHTTP_first_match [of ?r ?req "[]", THEN conjunct1, rule_format, OF hyp])
  then show "ServeHTTP ?r ?req [] = [0]"
    by (simp add: Handle_def NewRouter_def adapt_def newRoute_def mark_def)
  have d: "\<forall>i<length (routes ?r). declines (routes ?r ! i) (ToLower (req_method ?req2)) ?req2"
    by (simp add: len low less_Suc_eq numeral_2_eq_2 declines_def skipped_def Handle_def NewRouter_def newRoute_def)
  have "ServeHTTP ?r ?req2 [] = NotFound ?r ?req2 []"
    using ServeHTTP_first_match [of ?r ?req2 "[]", THEN conjunct2, THEN conjunct1] d by blast
  then show "ServeHTTP ?r ?req2 [] = [2]"
    by (simp add: Handle_def NewRouter_def mark_def)
qed


section \<open>Length gate and prefix routes\<close>

lemma pathSegments_slash: "pathSegments (p @ ''/'') = pathSegments p"
  by (simp add: pathSegments_def Trim_snoc)

text \<open>
  C2. Paths and patterns are split by \<open>pathSegments\<close>. A request with more segments
  than the pattern fails on a route that is not a prefix route. A pattern ending in a
  slash makes a prefix route, which matches the pattern itself as a path, the pattern
  followed by one more slash, and every path whose segments are the pattern's followed
  by further segments; when the pattern has a character other than the slash, every
  path that continues the pattern's text is such a path.
\<close>

theorem prefix_route_matches:
  "(length (segs r) < length (pathSegments path) \<and> \<not> prefix r \<longrightarrow> match r ctx path = None)
   \<and> (HasSuffix pattern ''/'' \<longrightarrow>
        prefix (newRoute m pattern h)
        \<and> match (newRoute m pattern h) ctx pattern \<noteq> None
        \<and> match (newRoute m pattern h) ctx (pattern @ ''/'') \<noteq> None
        \<and> (\<forall>p extra. pathSegments p = pathSegments pattern @ extra \<longrightarrow>
              match (newRoute m pattern h) ctx p \<noteq> None)
        \<and> (Trim pattern CHR ''/'' \<noteq> [] \<longrightarrow>
              (\<forall>rest. match (newRoute m pattern h) ctx (pattern @ rest) \<noteq> None)))"
proof (intro conjI impI allI)
  assume "length (segs r) < length (pathSegments path) \<and> \<not> prefix r"
  then show "match r ctx path = None" by (simp add: match_def)
next
  assume suf: "HasSuffix pattern ''/''"
  then show pre: "prefix (newRoute m pattern h)" by (simp add: newRoute_def)
  have sg: "segs (newRoute m pattern h) = pathSegments pattern" by (simp add: newRoute_def)
  have ext: "match (newRoute m pattern h) ctx p \<noteq> None"
    if "pathSegments p = pathSegments pattern @ extra" for p extra
    by (rule match_extended [OF pre]) (simp add: sg that)
  show "match (newRoute m pattern h) ctx pattern \<noteq> None"
    by (rule ext [of pattern "[]"]) simp
  show "match (newRoute m pattern h) ctx (pattern @ ''/'') \<noteq> None"
    by (rule ext [of "pattern @ ''/''" "[]"]) (simp add: pathSegments_slash)
  show "match (newRoute m pattern h) ctx p \<noteq> None"
    if "pathSegments p = pathSegments pattern @ extra" for p extra
    using that by (rule ext)
  show "match (newRoute m pattern h) ctx (pattern @ rest) \<noteq> None"
    if "Trim pattern CHR ''/'' \<noteq> []" for rest
  proof -
    from pathSegments_extend [OF suf that, of rest] obtain extra where
      "pathSegments (pattern @ rest) = pathSegments pattern @ extra" ..
    then show ?thesis by (rule ext)
  qed
qed

text \<open>The prefix cases of \<open>TestRouting\<close>.\<close>

theorem prefix_route_matches_witness:
  "match (newRoute ''GET'' ''/not-prefix'' (\<lambda>q (w::unit). w)) [] ''/not-prefix/anything/else'' = None
   \<and> prefix (newRoute ''GET'' ''/prefix/'' (\<lambda>q (w::unit). w))
   \<and> match (newRoute ''GET'' ''/prefix/'' (\<lambda>q (w::unit). w)) [] ''/prefix/'' \<noteq> None
   \<and> match (newRoute ''GET'' ''/prefix/'' (\<lambda>q (w::unit). w)) [] ''/prefix//'' \<noteq> None
   \<and> match (newRoute ''GET'' ''/prefix/'' (\<lambda>q (w::unit). w)) [] ''/prefix/anything/else'' \<noteq> None
   \<and> match (newRoute ''GET'' ''/prefix/'' (\<lambda>q (w::unit). w)) [] ''/prefix/one'' \<noteq> None"
proof -
  let ?h = "\<lambda>q (w::unit). w"
  have 1: "length (segs (newRoute ''GET'' ''/not-prefix'' ?h)) < length (pathSegments ''/not-prefix/anything/else'')
           \<and> \<not> prefix (newRoute ''GET'' ''/not-prefix'' ?h)"
    by (simp add: newRoute_def pathSegments_def Trim_def HasSuffix_def)
  have 2: "HasSuffix ''/prefix/'' ''/''" by (simp add: HasSuffix_def)
  have 3: "Trim ''/prefix/'' CHR ''/'' \<noteq> []" by (simp add: Trim_def)
  have 4: "pathSegments ''/prefix/anything/else'' = pathSegments ''/prefix/'' @ [''anything'', ''else'']"
    by (simp add: pathSegments_def Trim_def)
  note A = prefix_route_matches [where r = "newRoute ''GET'' ''/not-prefix'' ?h"
      and path = "''/not-prefix/anything/else''" and ctx = "[]", THEN conjunct1, rule_format, OF 1]
  note B = prefix_route_matches [where pattern = "''/prefix/''" and m = "''GET''" and h = ?h and ctx = "[]",
      THEN conjunct2, rule_format, OF 2]
  from B have b1: "prefix (newRoute ''GET'' ''/prefix/'' ?h)"
    and b2: "match (newRoute ''GET'' ''/prefix/'' ?h) [] ''/prefix/'' \<noteq> None"
    and b3: "match (newRoute ''GET'' ''/prefix/'' ?h) [] (''/prefix/'' @ ''/'') \<noteq> None"
    and b4: "\<forall>p extra. pathSegments p = pathSegments ''/prefix/'' @ extra \<longrightarrow>
               match (newRoute ''GET'' ''/prefix/'' ?h) [] p \<noteq> None"
    and b5: "Trim ''/prefix/'' CHR ''/'' \<noteq> [] \<longrightarrow> (\<forall>rest. match (newRoute ''GET'' ''/prefix/'' ?h) [] (''/prefix/'' @ rest) \<noteq> None)"
    by blast+
  from b4 4 have c4: "match (newRoute ''GET'' ''/prefix/'' ?h) [] ''/prefix/anything/else'' \<noteq> None"
    by blast
  from b5 3 have "match (newRoute ''GET'' ''/prefix/'' ?h) [] (''/prefix/'' @ ''one'') \<noteq> None"
    by blast
  with A b1 b2 b3 c4 show ?thesis by simp
qed

section \<open>Literal segments that end in three dots\<close>


lemma dots_miss_differs:
  assumes "HasSuffix seg ''...''" and "\<not> HasPrefix s (take (length seg - 3) seg)"
  shows "seg \<noteq> s"
proof
  assume "seg = s"
  with assms(1) have "dots_hit seg s" by (simp add: dots_hit_self)
  with assms(2) show False by (simp add: dots_hit_def)
qed

lemma dots_step_miss:
  assumes "\<not> isParam seg" and "HasSuffix seg ''...''" and "i < length ss"
    and "\<not> HasPrefix (ss ! i) (take (length seg - 3) seg)"
  shows "match_loop ctx (seg # rest) ss i = None"
  using assms dots_miss_differs [OF assms(2,4)] by (simp add: dots_hit_def)

lemma match_reach:
  assumes sg: "segs r = pre @ seg # rest"
    and lit: "\<not> isParam seg" and dots: "HasSuffix seg ''...''"
    and gate: "length (pathSegments path) \<le> length (segs r) \<or> prefix r"
    and len: "length pre < length (pathSegments path)"
    and acc: "\<forall>j<length pre. accepts (pre ! j) (pathSegments path ! j)"
    and hit: "HasPrefix (pathSegments path ! length pre) (take (length seg - 3) seg)"
  shows "match r ctx path = match_loop ctx pre (pathSegments path) 0"
    and "match r ctx path \<noteq> None"
proof -
  let ?ss = "pathSegments path"
  have m: "match r ctx path = match_loop ctx (pre @ seg # rest) ?ss 0"
    using gate by (auto simp: match_def sg [symmetric])
  have "dots_hit seg (?ss ! (0 + length pre))"
    using dots hit by (simp add: dots_hit_def)
  with acc len lit
  have "match_loop ctx (pre @ seg # rest) ?ss 0 = match_loop ctx pre ?ss 0
        \<and> match_loop ctx pre ?ss 0 \<noteq> None"
    by (intro match_loop_reach) simp_all
  with m show "match r ctx path = match_loop ctx pre ?ss 0" and "match r ctx path \<noteq> None"
    by simp_all
qed




text \<open>
  C6. When the walk stands at a literal pattern segment that ends in three dots and the
  request's segment does not start with the segment without the dots, the walk goes to
  the equality test, and it fails there: the two segments cannot be equal. So a route
  whose walk reaches such a segment does not match; \<open>/foo...\<close> does not match \<open>/fo\<close>.
\<close>

theorem dots_miss_fails:
  "(\<not> isParam seg \<and> HasSuffix seg ''...'' \<and> i < length ss
      \<and> \<not> HasPrefix (ss ! i) (take (length seg - 3) seg)
     \<longrightarrow> match_loop ctx (seg # rest) ss i =
           (if seg \<noteq> ss ! i then None else match_loop ctx rest ss (i + 1))
         \<and> match_loop ctx (seg # rest) ss i = None)
   \<and> (segs r = pre @ seg # rest \<and> \<not> isParam seg \<and> HasSuffix seg ''...''
      \<and> length pre < length (pathSegments path)
      \<and> (\<forall>j<length pre. steps_over (pre ! j) (pathSegments path ! j))
      \<and> \<not> HasPrefix (pathSegments path ! length pre) (take (length seg - 3) seg)
     \<longrightarrow> match r c path = None)
   \<and> match (newRoute m ''/foo...'' h) c ''/fo'' = None"
proof (intro conjI impI)
  assume a: "\<not> isParam seg \<and> HasSuffix seg ''...'' \<and> i < length ss
      \<and> \<not> HasPrefix (ss ! i) (take (length seg - 3) seg)"
  then show "match_loop ctx (seg # rest) ss i =
           (if seg \<noteq> ss ! i then None else match_loop ctx rest ss (i + 1))"
    by (simp add: dots_hit_def)
  from a show "match_loop ctx (seg # rest) ss i = None"
    by (elim conjE) (rule dots_step_miss)
next
  assume a: "segs r = pre @ seg # rest \<and> \<not> isParam seg \<and> HasSuffix seg ''...''
      \<and> length pre < length (pathSegments path)
      \<and> (\<forall>j<length pre. steps_over (pre ! j) (pathSegments path ! j))
      \<and> \<not> HasPrefix (pathSegments path ! length pre) (take (length seg - 3) seg)"
  let ?ss = "pathSegments path"
  from a have "\<forall>j<length pre. steps_over (pre ! j) (?ss ! (0 + j))" and "0 + length pre \<le> length ?ss"
    by simp_all
  from match_loop_walk [OF this, of c] obtain c' where
    w: "\<forall>qs. match_loop c (pre @ qs) ?ss 0 = match_loop c' qs ?ss (0 + length pre)" ..
  have "match_loop c' (seg # rest) ?ss (length pre) = None"
    using a by (intro dots_step_miss) simp_all
  with w have "match_loop c (pre @ seg # rest) ?ss 0 = None" by simp
  moreover from a have "segs r = pre @ seg # rest" by (rule conjunct1)
  ultimately have "match_loop c (segs r) ?ss 0 = None" by simp
  then show "match r c path = None" by (simp add: match_def Let_def)
next
  show "match (newRoute m ''/foo...'' h) c ''/fo'' = None"
    by (simp add: match_def newRoute_def pathSegments_def Trim_def HasSuffix_def HasPrefix_def
      isParam_def dots_hit_def)
qed

text \<open>The walk on \<open>foo...\<close> against \<open>fo\<close>, and a route that reaches such a segment third.\<close>

theorem dots_miss_fails_witness:
  "match_loop [] [''foo...'', ''bar''] [''fo'', ''bar''] 0 = None
   \<and> match (newRoute ''GET'' ''/v/:n/foo.../x/'' (\<lambda>q (w::unit). w)) [] ''/v/1/fo/x/y'' = None"
proof -
  have 1: "\<not> isParam ''foo...'' \<and> HasSuffix ''foo...'' ''...'' \<and> 0 < length [''fo'', ''bar'']
      \<and> \<not> HasPrefix ([''fo'', ''bar''] ! 0) (take (length ''foo...'' - 3) ''foo...'')"
    by (simp add: isParam_def HasSuffix_def HasPrefix_def)
  have ps: "pathSegments ''/v/:n/foo.../x/'' = [''v'', '':n'', ''foo...'', ''x'']"
    "pathSegments ''/v/1/fo/x/y'' = [''v'', ''1'', ''fo'', ''x'', ''y'']"
    by (simp_all add: pathSegments_def Trim_def)
  let ?r = "newRoute ''GET'' ''/v/:n/foo.../x/'' (\<lambda>q (w::unit). w)"
  have 2: "segs ?r = [''v'', '':n''] @ ''foo...'' # [''x''] \<and> \<not> isParam ''foo...'' \<and> HasSuffix ''foo...'' ''...''
      \<and> length [''v'', '':n''] < length (pathSegments ''/v/1/fo/x/y'')
      \<and> (\<forall>j<length [''v'', '':n'']. steps_over ([''v'', '':n''] ! j) (pathSegments ''/v/1/fo/x/y'' ! j))
      \<and> \<not> HasPrefix (pathSegments ''/v/1/fo/x/y'' ! length [''v'', '':n'']) (take (length ''foo...'' - 3) ''foo...'')"
    unfolding ps by (simp add: newRoute_def ps isParam_def HasSuffix_def HasPrefix_def steps_over_def dots_hit_def
        less_Suc_eq numeral_2_eq_2)
  note A = dots_miss_fails [where seg = "''foo...''" and i = 0 and ss = "[''fo'', ''bar'']" and ctx = "[]"
      and rest = "[''bar'']", THEN conjunct1, rule_format, OF 1, THEN conjunct2]
  note B = dots_miss_fails [where r = ?r and pre = "[''v'', '':n'']" and seg = "''foo...''" and rest = "[''x'']"
      and path = "''/v/1/fo/x/y''" and c = "[]", THEN conjunct2, THEN conjunct1, rule_format, OF 2]
  from A B show ?thesis by simp
qed


text \<open>
  C9, as stated, fails: the pattern \<open>/static.../ignored\<close> has the segment \<open>static...\<close>
  followed by another, the request \<open>/static/a/b\<close> has \<open>static\<close> at the same index, and
  the match fails, because the request has three segments, the pattern two, and the
  pattern ends neither in a slash nor in the dots.
\<close>

theorem dots_mid_pattern_counterexample:
  "pathSegments ''/static.../ignored'' = [''static...'', ''ignored'']
   \<and> pathSegments ''/static/a/b'' = [''static'', ''a'', ''b'']
   \<and> HasPrefix ''static'' (take (length ''static...'' - 3) ''static...'')
   \<and> match (newRoute ''GET'' ''/static.../ignored'' (\<lambda>q (w::unit). w)) [] ''/static/a/b'' = None"
  by (simp add: match_def newRoute_def pathSegments_def Trim_def HasSuffix_def HasPrefix_def)

text \<open>
  C9, amended. A literal segment that ends in three dots, at any index of the pattern
  and whatever segments \<open>rest\<close> follow it, makes the match succeed for every request
  that passes the length gate (it has no more segments than the pattern, or the pattern
  ends in a slash or in the dots), whose earlier segments are accepted by the pattern's
  and whose segment at that index starts with the pattern segment without the dots. The
  result is that of the walk over the earlier pattern segments alone: the segments
  after the dotted one are not read.
\<close>

theorem dots_hit_mid_pattern:
  assumes "pathSegments pattern = pre @ seg # rest"
    and "\<not> isParam seg" and "HasSuffix seg ''...''"
    and "length (pathSegments path) \<le> length (pathSegments pattern)
         \<or> HasSuffix pattern ''/'' \<or> HasSuffix pattern ''...''"
    and "length pre < length (pathSegments path)"
    and "\<forall>j<length pre. accepts (pre ! j) (pathSegments path ! j)"
    and "HasPrefix (pathSegments path ! length pre) (take (length seg - 3) seg)"
  shows "match (newRoute m pattern h) ctx path = match_loop ctx pre (pathSegments path) 0
         \<and> match (newRoute m pattern h) ctx path \<noteq> None"
proof -
  let ?r = "newRoute m pattern h"
  have sg: "segs ?r = pre @ seg # rest" using assms(1) by (simp add: newRoute_def)
  have gate: "length (pathSegments path) \<le> length (segs ?r) \<or> prefix ?r"
    using assms(4) by (auto simp: newRoute_def)
  from match_reach [OF sg assms(2,3) gate assms(5,6,7)] show ?thesis by simp
qed

text \<open>A dotted segment in third place of four; the fourth is never compared.\<close>

theorem dots_hit_mid_pattern_witness:
  "match (newRoute ''GET'' ''/files/:id/static.../ignored'' (\<lambda>q (w::unit). w)) [] ''/files/7/staticfoo/b''
     = Some [(''id'', Str ''7'')]"
proof -
  have ps: "pathSegments ''/files/:id/static.../ignored'' = [''files'', '':id''] @ ''static...'' # [''ignored'']"
    "pathSegments ''/files/7/staticfoo/b'' = [''files'', ''7'', ''staticfoo'', ''b'']"
    by (simp_all add: pathSegments_def Trim_def)
  have 2: "\<not> isParam ''static...''" and 3: "HasSuffix ''static...'' ''...''"
    by (simp_all add: isParam_def HasSuffix_def HasPrefix_def)
  have 4: "length (pathSegments ''/files/7/staticfoo/b'') \<le> length (pathSegments ''/files/:id/static.../ignored'')
         \<or> HasSuffix ''/files/:id/static.../ignored'' ''/'' \<or> HasSuffix ''/files/:id/static.../ignored'' ''...''"
    by (simp add: ps)
  have 5: "length [''files'', '':id''] < length (pathSegments ''/files/7/staticfoo/b'')"
    by (simp add: ps)
  have 6: "\<forall>j<length [''files'', '':id'']. accepts ([''files'', '':id''] ! j) (pathSegments ''/files/7/staticfoo/b'' ! j)"
    by (simp add: ps accepts_def isParam_def HasPrefix_def less_Suc_eq numeral_2_eq_2)
  have 7: "HasPrefix (pathSegments ''/files/7/staticfoo/b'' ! length [''files'', '':id''])
      (take (length ''static...'' - 3) ''static...'')"
    by (simp add: ps HasPrefix_def)
  from dots_hit_mid_pattern [OF ps(1) 2 3 4 5 6 7, of "''GET''" "\<lambda>q (w::unit). w" "[]"]
  show ?thesis
    by (simp add: ps isParam_def HasPrefix_def TrimPrefix_def WithValue_def dots_hit_def HasSuffix_def)
qed

section \<open>Parameter capture\<close>

lemma match_loop_param:
  assumes "match_loop ctx ps ss k = Some c"
    and "i < length ps" and "ps ! i = CHR '':'' # name"
    and "\<forall>j<i. isParam (ps ! j) \<or> \<not> dots_hit (ps ! j) (ss ! (k + j))"
    and "\<forall>j. i < j \<and> j < length ps \<longrightarrow> ps ! j \<noteq> CHR '':'' # name"
  shows "k + i < length ss \<and> Value c name = Some (Str (ss ! (k + i)))"
  using assms
proof (induction ps arbitrary: ctx k i)
  case Nil
  then show ?case by simp
next
  case (Cons p ps)
  from Cons.prems(1) have k: "k < length ss" by (simp split: if_splits)
  show ?case
  proof (cases i)
    case 0
    with Cons.prems(3) have p: "p = CHR '':'' # name" by simp
    then have par: "isParam p" by (simp add: isParam_Cons)
    from Cons.prems(1) k par p
    have run: "match_loop (WithValue ctx name (Str (ss ! k))) ps ss (k + 1) = Some c"
      by (simp add: TrimPrefix_colon)
    have "CHR '':'' # name \<notin> set ps"
    proof
      assume "CHR '':'' # name \<in> set ps"
      then obtain j where "j < length ps" and "ps ! j = CHR '':'' # name"
        by (auto simp: in_set_conv_nth)
      then have "i < Suc j \<and> Suc j < length (p # ps)" and "(p # ps) ! Suc j = CHR '':'' # name"
        using 0 by simp_all
      with Cons.prems(5) show False by blast
    qed
    with run have "Value c name = Value (WithValue ctx name (Str (ss ! k))) name"
      by (rule match_loop_keeps)
    then show ?thesis using 0 k by (simp add: Value_def WithValue_def)
  next
    case (Suc i')
    from Cons.prems(4) Suc have p0: "isParam p \<or> \<not> dots_hit p (ss ! k)"
      by fastforce
    have i': "i' < length ps" using Cons.prems(2) Suc by simp
    have at: "ps ! i' = CHR '':'' # name" using Cons.prems(3) Suc by simp
    have before: "\<forall>j<i'. isParam (ps ! j) \<or> \<not> dots_hit (ps ! j) (ss ! (Suc k + j))"
    proof (intro allI impI)
      fix j assume "j < i'"
      then have "Suc j < i" using Suc by simp
      with Cons.prems(4) have "isParam ((p # ps) ! Suc j) \<or> \<not> dots_hit ((p # ps) ! Suc j) (ss ! (k + Suc j))"
        by blast
      then show "isParam (ps ! j) \<or> \<not> dots_hit (ps ! j) (ss ! (Suc k + j))" by simp
    qed
    have after: "\<forall>j. i' < j \<and> j < length ps \<longrightarrow> ps ! j \<noteq> CHR '':'' # name"
    proof (intro allI impI)
      fix j assume "i' < j \<and> j < length ps"
      then have "i < Suc j \<and> Suc j < length (p # ps)" using Suc by simp
      with Cons.prems(5) have "(p # ps) ! Suc j \<noteq> CHR '':'' # name" by blast
      then show "ps ! j \<noteq> CHR '':'' # name" by simp
    qed
    from Cons.prems(1) k p0 obtain ctx' where "match_loop ctx' ps ss (Suc k) = Some c"
      by (auto split: if_splits)
    from Cons.IH [OF this i' at before after] show ?thesis using Suc by simp
  qed
qed

lemma Param_Value: "Value c name = Some (Str v) \<Longrightarrow> Param c name = v"
  by (simp add: Param_def)

text \<open>
  C3, as stated, fails: the pattern \<open>/a.../:id\<close> has the parameter segment \<open>:id\<close>, the
  path \<open>/ab/123\<close> matches it, and the match captures nothing, because the walk ends
  with success at \<open>a...\<close>; a lookup of \<open>id\<close> in the resulting context gives the empty
  string, not the segment \<open>123\<close>.
\<close>

theorem param_capture_counterexample:
  "pathSegments ''/a.../:id'' = [''a...'', '':id'']
   \<and> pathSegments ''/ab/123'' = [''ab'', ''123'']
   \<and> match (newRoute ''GET'' ''/a.../:id'' (\<lambda>q (w::unit). w)) [] ''/ab/123'' = Some []
   \<and> Param [] ''id'' = []"
  by (simp add: match_def newRoute_def pathSegments_def Trim_def HasSuffix_def HasPrefix_def
      isParam_def dots_hit_def Param_def Value_def)

text \<open>
  C3, amended. Let route \<open>k\<close> be the one \<open>ServeHTTP\<close> dispatches to, its match giving
  the context \<open>c\<close>, and let its pattern segment \<open>i\<close> be the parameter \<open>:name\<close>. If no
  literal segment before \<open>i\<close> ends the walk (none is a dotted literal that hits) and no
  later segment declares the same name, the request has a segment \<open>i\<close> and, inside the
  handler invoked, \<open>Param\<close> of the name is exactly that segment.
\<close>

theorem param_capture:
  assumes "k < length (routes R)"
    and "\<forall>j<k. declines (routes R ! j) (ToLower (req_method req)) req"
    and "\<not> skipped (routes R ! k) (ToLower (req_method req))"
    and "match (routes R ! k) (req_ctx req) (req_path req) = Some c"
    and "i < length (segs (routes R ! k))"
    and "segs (routes R ! k) ! i = CHR '':'' # name"
    and "\<forall>j<i. isParam (segs (routes R ! k) ! j)
            \<or> \<not> dots_hit (segs (routes R ! k) ! j) (pathSegments (req_path req) ! j)"
    and "\<forall>j. i < j \<and> j < length (segs (routes R ! k)) \<longrightarrow> segs (routes R ! k) ! j \<noteq> CHR '':'' # name"
  shows "ServeHTTP R req w = handler (routes R ! k) (WithContext req c) w
         \<and> i < length (pathSegments (req_path req))
         \<and> Param (req_ctx (WithContext req c)) name = pathSegments (req_path req) ! i"
proof -
  let ?rt = "routes R ! k" and ?ss = "pathSegments (req_path req)"
  have serve: "ServeHTTP R req w = handler ?rt (WithContext req c) w"
    unfolding ServeHTTP_def using assms(1-4) by (rule serve_loop_nth)
  from assms(4) have run: "match_loop (req_ctx req) (segs ?rt) ?ss 0 = Some c"
    by (simp add: match_def Let_def split: if_splits)
  from assms(7) have before: "\<forall>j<i. isParam (segs ?rt ! j) \<or> \<not> dots_hit (segs ?rt ! j) (?ss ! (0 + j))"
    by simp
  from match_loop_param [OF run assms(5,6) before assms(8)]
  have "i < length ?ss" and "Value c name = Some (Str (?ss ! i))" by simp_all
  then have "i < length ?ss" and "Param (req_ctx (WithContext req c)) name = ?ss ! i"
    by (simp_all add: Param_Value WithContext_def)
  with serve show ?thesis by simp
qed


text \<open>
  The scenario of the tests: \<open>GET /path-param/:id\<close> registered, \<open>GET /path-param/123\<close>
  dispatched; the handler returns what \<open>Param\<close> gives it for \<open>id\<close>.
\<close>

theorem param_capture_witness:
  "ServeHTTP (Handle (NewRouter (\<lambda>q w. w) []) ''GET'' ''/path-param/:id'' (\<lambda>q w. Param (req_ctx q) ''id'') [])
     \<lparr>req_method = ''GET'', req_path = ''/path-param/123'', req_ctx = []\<rparr> ''handler not called'' = ''123''
   \<and> Param [(''id'', Str ''123'')] ''id'' = ''123''"
proof -
  let ?H = "\<lambda>q (w::string). Param (req_ctx q) ''id''"
  let ?R = "Handle (NewRouter (\<lambda>q w. w) []) ''GET'' ''/path-param/:id'' ?H []"
  let ?req = "\<lparr>req_method = ''GET'', req_path = ''/path-param/123'', req_ctx = []\<rparr>"
  let ?c = "[(''id'', Str ''123'')]"
  have rt: "routes ?R ! 0 = newRoute ''GET'' ''/path-param/:id'' ?H"
    by (simp add: Handle_def NewRouter_def adapt_def)
  have sg: "segs (routes ?R ! 0) = [''path-param'', '':id'']"
    by (simp add: rt newRoute_def pathSegments_def Trim_def)
  have low: "ToLower ''GET'' = ''get''" by code_simp
  have 1: "0 < length (routes ?R)" by (simp add: Handle_def NewRouter_def)
  have 2: "\<forall>j<0. declines (routes ?R ! j) (ToLower (req_method ?req)) ?req" by simp
  have 3: "\<not> skipped (routes ?R ! 0) (ToLower (req_method ?req))"
    by (simp add: rt skipped_def newRoute_def low)
  have 4: "match (routes ?R ! 0) (req_ctx ?req) (req_path ?req) = Some ?c"
    by (simp add: rt eval_defs)
  have 5: "1 < length (segs (routes ?R ! 0))" by (simp add: sg)
  have 6: "segs (routes ?R ! 0) ! 1 = CHR '':'' # ''id''" by (simp add: sg)
  have 7: "\<forall>j<1. isParam (segs (routes ?R ! 0) ! j)
            \<or> \<not> dots_hit (segs (routes ?R ! 0) ! j) (pathSegments (req_path ?req) ! j)"
    by (simp add: sg dots_hit_def HasSuffix_def)
  have 8: "\<forall>j. 1 < j \<and> j < length (segs (routes ?R ! 0)) \<longrightarrow> segs (routes ?R ! 0) ! j \<noteq> CHR '':'' # ''id''"
    by (simp add: sg)
  from param_capture [OF 1 2 3 4 5 6 7 8, of "''handler not called''"]
  show ?thesis by (simp add: rt newRoute_def WithContext_def pathSegments_def Trim_def)
qed

section \<open>The method test\<close>

lemma lower_byte_star: "lower_byte c = CHR ''*'' \<longleftrightarrow> c = CHR ''*''"
proof
  assume a: "lower_byte c = CHR ''*''"
  show "c = CHR ''*''"
  proof (cases "65 \<le> (of_char c :: nat) \<and> (of_char c :: nat) \<le> 90")
    case True
    with a have "char_of (of_char c + 32 :: nat) = CHR ''*''"
      by (simp add: lower_byte_def)
    then have "(of_char (char_of (of_char c + 32 :: nat)) :: nat) = of_char CHR ''*''"
      by (rule arg_cong)
    then have "((of_char c :: nat) + 32) mod 256 = 42" by simp
    with True show ?thesis by simp
  next
    case False
    with a show ?thesis by (auto simp: lower_byte_def Let_def)
  qed
next
  assume "c = CHR ''*''"
  then show "lower_byte c = CHR ''*''" by (simp add: lower_byte_def)
qed

lemma ToLower_star: "ToLower s = ''*'' \<longleftrightarrow> s = ''*''"
  by (cases s) (auto simp: ToLower_def lower_byte_star)

lemma adapt_Nil: "adapt h [] = h"
  by (simp add: adapt_def)

text \<open>
  C7. A route registered with the method \<open>*\<close> is skipped for no request method. A route
  registered with any other method is not skipped exactly when its method and the
  request's are equal after \<open>ToLower\<close>. So a router with one route whose pattern matches
  the path calls the route's handler when the registered method is \<open>*\<close> or equals the
  request's up to case, and the fallback otherwise; \<open>get\<close> and \<open>GET\<close> match each other.
\<close>

theorem method_test:
  "\<not> skipped (newRoute ''*'' pattern h) (ToLower reqm)
   \<and> (regm \<noteq> ''*'' \<longrightarrow>
        (\<not> skipped (newRoute regm pattern h) (ToLower reqm) \<longleftrightarrow> ToLower regm = ToLower reqm))
   \<and> (match (newRoute regm pattern h) (req_ctx req) (req_path req) = Some c \<longrightarrow>
        ServeHTTP (Handle (NewRouter nf []) regm pattern h []) req w =
          (if regm = ''*'' \<or> ToLower regm = ToLower (req_method req)
           then h (WithContext req c) w else nf req w))
   \<and> \<not> skipped (newRoute ''get'' pattern h) (ToLower ''GET'')
   \<and> \<not> skipped (newRoute ''GET'' pattern h) (ToLower ''get'')"
proof (intro conjI impI)
  show "\<not> skipped (newRoute ''*'' pattern h) (ToLower reqm)"
    by (simp add: skipped_def newRoute_def ToLower_star)
  show "\<not> skipped (newRoute regm pattern h) (ToLower reqm) \<longleftrightarrow> ToLower regm = ToLower reqm"
    if "regm \<noteq> ''*''"
    using that by (auto simp: skipped_def newRoute_def ToLower_star)
  show "ServeHTTP (Handle (NewRouter nf []) regm pattern h []) req w =
          (if regm = ''*'' \<or> ToLower regm = ToLower (req_method req)
           then h (WithContext req c) w else nf req w)"
    if "match (newRoute regm pattern h) (req_ctx req) (req_path req) = Some c"
    using that
    by (auto simp: ServeHTTP_def Handle_def NewRouter_def adapt_Nil skipped_def ToLower_star)
      (simp_all add: newRoute_def ToLower_star)
  have "ToLower ''GET'' = ''get''" "ToLower ''get'' = ''get''" by code_simp+
  then show "\<not> skipped (newRoute ''get'' pattern h) (ToLower ''GET'')"
    and "\<not> skipped (newRoute ''GET'' pattern h) (ToLower ''get'')"
    by (simp_all add: skipped_def newRoute_def)
qed

text \<open>Method cases of \<open>TestRouting\<close>.\<close>

theorem method_test_witness:
  "\<not> skipped (newRoute ''Get'' ''/methodcase'' (\<lambda>q (w::unit). w)) (ToLower ''get'')
   \<and> skipped (newRoute ''DELETE'' ''/method2'' (\<lambda>q (w::unit). w)) (ToLower ''GET'')
   \<and> ServeHTTP (Handle (NewRouter (\<lambda>q w. ''fallback'') []) ''*'' ''/all-methods'' (\<lambda>q w. ''handler'') [])
        \<lparr>req_method = ''PUT'', req_path = ''/all-methods'', req_ctx = []\<rparr> [] = ''handler''
   \<and> ServeHTTP (Handle (NewRouter (\<lambda>q w. ''fallback'') []) ''GET'' ''/method1'' (\<lambda>q w. ''handler'') [])
        \<lparr>req_method = ''POST'', req_path = ''/method1'', req_ctx = []\<rparr> [] = ''fallback''"
proof -
  have low: "ToLower ''Get'' = ''get''" "ToLower ''get'' = ''get''" "ToLower ''DELETE'' = ''delete''"
    "ToLower ''GET'' = ''get''" "ToLower ''POST'' = ''post''" "ToLower ''PUT'' = ''put''"
    by code_simp+
  have ne: "''Get'' \<noteq> ''*''" "''DELETE'' \<noteq> ''*''" by simp_all
  note A = method_test [where regm = "''Get''" and reqm = "''get''" and pattern = "''/methodcase''"
      and h = "\<lambda>q (w::unit). w", THEN conjunct2, THEN conjunct1, rule_format, OF ne(1)]
  note B = method_test [where regm = "''DELETE''" and reqm = "''GET''" and pattern = "''/method2''"
      and h = "\<lambda>q (w::unit). w", THEN conjunct2, THEN conjunct1, rule_format, OF ne(2)]
  let ?h = "\<lambda>q (w::string). ''handler''" and ?nf = "\<lambda>q (w::string). ''fallback''"
  let ?req1 = "\<lparr>req_method = ''PUT'', req_path = ''/all-methods'', req_ctx = []\<rparr>"
  let ?req2 = "\<lparr>req_method = ''POST'', req_path = ''/method1'', req_ctx = []\<rparr>"
  have m1: "match (newRoute ''*'' ''/all-methods'' ?h) (req_ctx ?req1) (req_path ?req1) = Some []"
    by (simp add: eval_defs)
  have m2: "match (newRoute ''GET'' ''/method1'' ?h) (req_ctx ?req2) (req_path ?req2) = Some []"
    by (simp add: eval_defs)
  note C = method_test [where regm = "''*''" and pattern = "''/all-methods''" and h = ?h and nf = ?nf
      and req = ?req1 and c = "[]" and w = "[]", THEN conjunct2, THEN conjunct2, THEN conjunct1, rule_format, OF m1]
  note D = method_test [where regm = "''GET''" and pattern = "''/method1''" and h = ?h and nf = ?nf
      and req = ?req2 and c = "[]" and w = "[]", THEN conjunct2, THEN conjunct2, THEN conjunct1, rule_format, OF m2]
  from A B C D show ?thesis by (simp add: low)
qed

section \<open>Parameter lookup\<close>

text \<open>
  C8. \<open>Param\<close> has a result for every context and name: the string stored under the name
  when there is one, and the empty string when the name is absent or holds a value that
  is not a string. After a capture of the name it is the captured string; in the
  background context it is empty; and a match whose pattern does not declare the name
  leaves its result as it was.
\<close>

theorem Param_total:
  "(Value ctx name = Some (Str v) \<longrightarrow> Param ctx name = v)
   \<and> (Value ctx name = Some Other \<longrightarrow> Param ctx name = [])
   \<and> (Value ctx name = None \<longrightarrow> Param ctx name = [])
   \<and> (Param ctx name = [] \<or> Value ctx name = Some (Str (Param ctx name)))
   \<and> Param (WithValue ctx name (Str v)) name = v
   \<and> Param [] name = []
   \<and> (match r ctx path = Some c \<and> CHR '':'' # name \<notin> set (segs r) \<longrightarrow> Param c name = Param ctx name)"
proof (intro conjI impI)
  show "Param ctx name = [] \<or> Value ctx name = Some (Str (Param ctx name))"
    by (simp add: Param_def split: option.splits any.splits)
  show "Param c name = Param ctx name"
    if "match r ctx path = Some c \<and> CHR '':'' # name \<notin> set (segs r)"
  proof -
    from that have "match_loop ctx (segs r) (pathSegments path) 0 = Some c"
      by (simp add: match_def Let_def split: if_splits)
    moreover from that have "CHR '':'' # name \<notin> set (segs r)" by simp
    ultimately have "Value c name = Value ctx name" by (rule match_loop_keeps)
    then show ?thesis by (simp add: Param_def)
  qed
qed (simp_all add: Param_def Value_def WithValue_def)

text \<open>Lookups of a captured name, of a value that is no string, and of unknown names.\<close>

theorem Param_total_witness:
  "Param [(''id'', Str ''123'')] ''id'' = ''123''
   \<and> Param [(''id'', Other)] ''id'' = []
   \<and> Param [(''id'', Str ''123'')] ''unknown'' = []
   \<and> (\<exists>c. match (newRoute ''GET'' ''/path-param/:id'' (\<lambda>q (w::unit). w)) [] ''/path-param/123'' = Some c
          \<and> Param c ''id'' = ''123'' \<and> Param c ''other'' = [])"
proof -
  let ?r = "newRoute ''GET'' ''/path-param/:id'' (\<lambda>q (w::unit). w)"
  have 1: "Value [(''id'', Str ''123'')] ''id'' = Some (Str ''123'')"
    and 2: "Value [(''id'', Other)] ''id'' = Some Other"
    and 3: "Value [(''id'', Str ''123'')] ''unknown'' = None"
    by (simp_all add: Value_def)
  have m: "match ?r [] ''/path-param/123'' = Some [(''id'', Str ''123'')]"
    by (simp add: eval_defs)
  have 4: "match ?r [] ''/path-param/123'' = Some [(''id'', Str ''123'')] \<and> CHR '':'' # ''other'' \<notin> set (segs ?r)"
    using m by (simp add: newRoute_def pathSegments_def Trim_def)
  note A = Param_total [where ctx = "[(''id'', Str ''123'')]" and name = "''id''" and v = "''123''",
      THEN conjunct1, rule_format, OF 1]
  note B = Param_total [where ctx = "[(''id'', Other)]" and name = "''id''",
      THEN conjunct2, THEN conjunct1, rule_format, OF 2]
  note C = Param_total [where ctx = "[(''id'', Str ''123'')]" and name = "''unknown''",
      THEN conjunct2, THEN conjunct2, THEN conjunct1, rule_format, OF 3]
  note D = Param_total [where ctx = "[]" and name = "''other''" and r = ?r and path = "''/path-param/123''"
      and c = "[(''id'', Str ''123'')]",
      THEN conjunct2, THEN conjunct2, THEN conjunct2, THEN conjunct2, THEN conjunct2, THEN conjunct2, rule_format, OF 4]
  note E = Param_total [where ctx = "[]" and name = "''other''",
      THEN conjunct2, THEN conjunct2, THEN conjunct2, THEN conjunct2, THEN conjunct2, THEN conjunct1]
  from D E have "Param [(''id'', Str ''123'')] ''other'' = []" by simp
  with A B C m show ?thesis by simp
qed

section \<open>Routes that fail leave nothing behind\<close>

text \<open>
  C10. Routes that are skipped or fail to match can be taken out of the front of the
  route list without changing what \<open>ServeHTTP\<close> does. The handler of the first route
  that matches runs on the request with the context \<open>c\<close> that this route's match made
  from the request's own context: \<open>c\<close> is that context with captures in front, each the
  name of a parameter segment of this route with a segment of the request. When every
  route fails, the fallback runs on the request as it came.
\<close>

theorem failed_routes_leave_nothing:
  "(list_all (\<lambda>rt. declines rt (ToLower (req_method req)) req) pre \<longrightarrow>
      ServeHTTP (r\<lparr>routes := pre @ rts\<rparr>) req w = ServeHTTP (r\<lparr>routes := rts\<rparr>) req w)
   \<and> (list_all (\<lambda>rt. declines rt (ToLower (req_method req)) req) pre
       \<and> \<not> skipped rt (ToLower (req_method req))
       \<and> match rt (req_ctx req) (req_path req) = Some c \<longrightarrow>
      ServeHTTP (r\<lparr>routes := pre @ rt # rts\<rparr>) req w = handler rt (WithContext req c) w
      \<and> (\<exists>caps. c = caps @ req_ctx req
            \<and> set caps \<subseteq> {(TrimPrefix p '':'', Str s) |p s.
                  p \<in> set (segs rt) \<and> isParam p \<and> s \<in> set (pathSegments (req_path req))}))
   \<and> (list_all (\<lambda>rt. declines rt (ToLower (req_method req)) req) (routes r) \<longrightarrow>
      ServeHTTP r req w = NotFound r req w)"
proof (intro conjI impI)
  let ?m = "ToLower (req_method req)"
  show "ServeHTTP (r\<lparr>routes := pre @ rts\<rparr>) req w = ServeHTTP (r\<lparr>routes := rts\<rparr>) req w"
    if "list_all (\<lambda>rt. declines rt ?m req) pre"
    using that by (simp add: ServeHTTP_def serve_loop_declined)
  assume a: "list_all (\<lambda>rt. declines rt ?m req) pre \<and> \<not> skipped rt ?m
       \<and> match rt (req_ctx req) (req_path req) = Some c"
  then have "serve_loop (pre @ rt # rts) (NotFound r) ?m req w = serve_loop (rt # rts) (NotFound r) ?m req w"
    by (simp add: serve_loop_declined)
  also have "\<dots> = handler rt (WithContext req c) w" using a by simp
  finally show "ServeHTTP (r\<lparr>routes := pre @ rt # rts\<rparr>) req w = handler rt (WithContext req c) w"
    by (simp add: ServeHTTP_def)
  from a have "match_loop (req_ctx req) (segs rt) (pathSegments (req_path req)) 0 = Some c"
    by (simp add: match_def Let_def split: if_splits)
  then show "\<exists>caps. c = caps @ req_ctx req
            \<and> set caps \<subseteq> {(TrimPrefix p '':'', Str s) |p s.
                  p \<in> set (segs rt) \<and> isParam p \<and> s \<in> set (pathSegments (req_path req))}"
    by (rule match_loop_captures)
next
  assume "list_all (\<lambda>rt. declines rt (ToLower (req_method req)) req) (routes r)"
  then have "serve_loop (routes r @ []) (NotFound r) (ToLower (req_method req)) req w =
             serve_loop [] (NotFound r) (ToLower (req_method req)) req w"
    by (rule serve_loop_declined)
  then show "ServeHTTP r req w = NotFound r req w" by (simp add: ServeHTTP_def)
qed


text \<open>
  The first route captures \<open>x\<close> and then fails at its last segment; the second matches
  and its handler sees \<open>y\<close> only. On a path that neither matches, the fallback sees no
  capture. The router without the first route serves the first request alike.
\<close>

theorem failed_routes_leave_nothing_witness:
  "match (newRoute ''GET'' ''/a/:x/b'' (\<lambda>q w. (Param (req_ctx q) ''x'', Param (req_ctx q) ''y''))) []
      ''/a/1/c'' = None
   \<and> ServeHTTP (Handle (Handle (NewRouter (\<lambda>q w. (''fallback'', Param (req_ctx q) ''x'')) [])
          ''GET'' ''/a/:x/b'' (\<lambda>q w. (Param (req_ctx q) ''x'', Param (req_ctx q) ''y'')) [])
          ''GET'' ''/a/:y/c'' (\<lambda>q w. (Param (req_ctx q) ''x'', Param (req_ctx q) ''y'')) [])
        \<lparr>req_method = ''GET'', req_path = ''/a/1/c'', req_ctx = []\<rparr> ([], []) = ([], ''1'')
   \<and> ServeHTTP (Handle (Handle (NewRouter (\<lambda>q w. (''fallback'', Param (req_ctx q) ''x'')) [])
          ''GET'' ''/a/:x/b'' (\<lambda>q w. (Param (req_ctx q) ''x'', Param (req_ctx q) ''y'')) [])
          ''GET'' ''/a/:y/c'' (\<lambda>q w. (Param (req_ctx q) ''x'', Param (req_ctx q) ''y'')) [])
        \<lparr>req_method = ''GET'', req_path = ''/a/1/d'', req_ctx = []\<rparr> ([], []) = (''fallback'', [])
   \<and> ServeHTTP (Handle (Handle (NewRouter (\<lambda>q w. (''fallback'', Param (req_ctx q) ''x'')) [])
          ''GET'' ''/a/:x/b'' (\<lambda>q w. (Param (req_ctx q) ''x'', Param (req_ctx q) ''y'')) [])
          ''GET'' ''/a/:y/c'' (\<lambda>q w. (Param (req_ctx q) ''x'', Param (req_ctx q) ''y'')) [])
        \<lparr>req_method = ''GET'', req_path = ''/a/1/c'', req_ctx = []\<rparr> ([], []) =
       ServeHTTP (Handle (NewRouter (\<lambda>q w. (''fallback'', Param (req_ctx q) ''x'')) [])
          ''GET'' ''/a/:y/c'' (\<lambda>q w. (Param (req_ctx q) ''x'', Param (req_ctx q) ''y'')) [])
        \<lparr>req_method = ''GET'', req_path = ''/a/1/c'', req_ctx = []\<rparr> ([], [])"
proof -
  let ?H = "\<lambda>q (w::string \<times> string). (Param (req_ctx q) ''x'', Param (req_ctx q) ''y'')"
  let ?nf = "\<lambda>q (w::string \<times> string). (''fallback'', Param (req_ctx q) ''x'')"
  let ?r0 = "newRoute ''GET'' ''/a/:x/b'' ?H" and ?r1 = "newRoute ''GET'' ''/a/:y/c'' ?H"
  let ?R = "Handle (Handle (NewRouter ?nf []) ''GET'' ''/a/:x/b'' ?H []) ''GET'' ''/a/:y/c'' ?H []"
  let ?req1 = "\<lparr>req_method = ''GET'', req_path = ''/a/1/c'', req_ctx = []\<rparr>"
  let ?req2 = "\<lparr>req_method = ''GET'', req_path = ''/a/1/d'', req_ctx = []\<rparr>"
  have low: "ToLower ''GET'' = ''get''" by code_simp
  have R: "?R = (NewRouter ?nf [])\<lparr>routes := [?r0] @ ?r1 # []\<rparr>" "routes ?R = [?r0, ?r1]"
    "NotFound ?R = ?nf"
    by (simp_all add: Handle_def NewRouter_def adapt_def)
  have m0: "match ?r0 [] ''/a/1/c'' = None" and m1: "match ?r1 [] ''/a/1/c'' = Some [(''y'', Str ''1'')]"
    and m2: "match ?r0 [] ''/a/1/d'' = None" and m3: "match ?r1 [] ''/a/1/d'' = None"
    by (simp_all add: eval_defs)
  have 1: "list_all (\<lambda>rt. declines rt (ToLower (req_method ?req1)) ?req1) [?r0]
       \<and> \<not> skipped ?r1 (ToLower (req_method ?req1))
       \<and> match ?r1 (req_ctx ?req1) (req_path ?req1) = Some [(''y'', Str ''1'')]"
    using m0 m1 by (simp add: declines_def skipped_def low newRoute_def)
  have 2: "list_all (\<lambda>rt. declines rt (ToLower (req_method ?req2)) ?req2) (routes ?R)"
    using m2 m3 by (simp add: R(2) declines_def)
  from failed_routes_leave_nothing [where r = "NewRouter ?nf []" and pre = "[?r0]" and rt = ?r1 and rts = "[]"
      and req = ?req1 and c = "[(''y'', Str ''1'')]" and w = "([], [])",
      THEN conjunct2, THEN conjunct1, rule_format, OF 1, THEN conjunct1]
  have A: "ServeHTTP ?R ?req1 ([], []) = handler ?r1 (WithContext ?req1 [(''y'', Str ''1'')]) ([], [])"
    by (simp only: R(1))
  from failed_routes_leave_nothing [where r = ?R and req = ?req2 and w = "([], [])",
      THEN conjunct2, THEN conjunct2, rule_format, OF 2]
  have B: "ServeHTTP ?R ?req2 ([], []) = ?nf ?req2 ([], [])"
    by (simp only: R(3))
  let ?R1 = "Handle (NewRouter ?nf []) ''GET'' ''/a/:y/c'' ?H []"
  have R1: "?R1 = (NewRouter ?nf [])\<lparr>routes := [?r1]\<rparr>" "?R = (NewRouter ?nf [])\<lparr>routes := [?r0] @ [?r1]\<rparr>"
    by (simp_all add: Handle_def NewRouter_def adapt_def)
  have 3: "list_all (\<lambda>rt. declines rt (ToLower (req_method ?req1)) ?req1) [?r0]"
    using 1 by (rule conjunct1)
  from failed_routes_leave_nothing [where r = "NewRouter ?nf []" and pre = "[?r0]" and rts = "[?r1]"
      and req = ?req1 and w = "([], [])", THEN conjunct1, rule_format, OF 3]
  have C: "ServeHTTP ?R ?req1 ([], []) = ServeHTTP ?R1 ?req1 ([], [])"
    by (simp only: R1)
  have "handler ?r1 (WithContext ?req1 [(''y'', Str ''1'')]) ([], []) = ([], ''1'')"
    by (simp add: newRoute_def WithContext_def Param_def Value_def)
  moreover have "?nf ?req2 ([], []) = (''fallback'', [])"
    by (simp add: Param_def Value_def)
  ultimately show ?thesis using A B C m0 by simp
qed

end
